theory Spec2Isabelle
  imports Main "HOL-Library.Sublist"
begin

section \<open>Python values, strings and the string methods the parser calls\<close>

text \<open>
  The script \<^verbatim>\<open>qualys_parser.py\<close> works on Python \<^verbatim>\<open>str\<close> values. A \<^verbatim>\<open>str\<close> is a
  sequence of code points and \<^verbatim>\<open>len\<close> counts code points. Here a string is a
  \<^typ>\<open>string\<close> whose every \<^typ>\<open>char\<close> stands for ONE code point, so the model covers
  the code points 0 to 255 (ASCII and Latin-1); \<^term>\<open>length\<close> is Python's \<^verbatim>\<open>len\<close>.
\<close>

abbreviation LF :: char where "LF \<equiv> CHR 0x0A"
abbreviation CR :: char where "CR \<equiv> CHR 0x0D"
abbreviation BSL :: char where "BSL \<equiv> CHR 0x5C"

text \<open>
  A cell of a \<^verbatim>\<open>csv.DictReader\<close> row is a \<^verbatim>\<open>str\<close>, \<^verbatim>\<open>None\<close> (the \<^verbatim>\<open>restval\<close> of a
  short row) or a list of strings (the \<^verbatim>\<open>restkey\<close> entry of a long row).
\<close>

datatype pyval = PyNone | PyStr string | PyList "string list"

text \<open>Python's truth value of an object, as \<^verbatim>\<open>if not x\<close> tests it.\<close>

fun truthy :: "pyval \<Rightarrow> bool" where
  "truthy PyNone = False"
| "truthy (PyStr s) = (s \<noteq> [])"
| "truthy (PyList xs) = (xs \<noteq> [])"

text \<open>
  The exceptions a run can raise; all are subclasses of \<^verbatim>\<open>Exception\<close>, which is
  what the handler of \<^verbatim>\<open>parse_qualys_csv\<close> catches. (An interrupt from outside the
  program is not an \<^verbatim>\<open>Exception\<close> and is not modelled.)
\<close>

datatype exn =
    FileNotFoundError
  | PermissionError
  | UnicodeDecodeError
  | CsvError
  | TypeError
  | AttributeError

text \<open>
  \<^verbatim>\<open>str.isspace\<close> on one code point below 256: TAB, LF, VT, FF, CR, the separators
  0x1C to 0x1F, the space, NEL (0x85) and the no-break space (0xA0). These are the
  characters \<^verbatim>\<open>str.strip()\<close> removes.
\<close>

definition is_space :: "char \<Rightarrow> bool" where
  "is_space c =
     (let n = (of_char c :: nat)
      in (9 \<le> n \<and> n \<le> 13) \<or> (28 \<le> n \<and> n \<le> 32) \<or> n = 133 \<or> n = 160)"

text \<open>\<^verbatim>\<open>s.strip()\<close>: drop the leading and the trailing whitespace.\<close>

definition strip :: "string \<Rightarrow> string" where
  "strip s = rev (dropWhile is_space (rev (dropWhile is_space s)))"

text \<open>
  \<^verbatim>\<open>str.lower\<close> on one code point below 256: the ASCII capitals and the Latin-1
  capitals 0xC0 to 0xDE (without the multiplication sign 0xD7) move up by 32.
\<close>

definition is_upper :: "char \<Rightarrow> bool" where
  "is_upper c =
     (let n = (of_char c :: nat)
      in (65 \<le> n \<and> n \<le> 90) \<or> (192 \<le> n \<and> n \<le> 222 \<and> n \<noteq> 215))"

definition lower_char :: "char \<Rightarrow> char" where
  "lower_char c = (if is_upper c then char_of ((of_char c :: nat) + 32) else c)"

definition lower :: "string \<Rightarrow> string" where
  "lower s = map lower_char s"

text \<open>
  \<^verbatim>\<open>s.replace(old, new)\<close> for a non-empty \<^verbatim>\<open>old\<close>: the occurrences of \<^verbatim>\<open>old\<close> are
  found from the left without overlap. (The script only calls it with a non-empty
  \<^verbatim>\<open>old\<close>; with an empty one the model leaves the string as it is.)
\<close>

function replace :: "string \<Rightarrow> string \<Rightarrow> string \<Rightarrow> string" where
  "replace old new [] = []"
| "replace old new (c # cs) =
     (if old \<noteq> [] \<and> prefix old (c # cs)
      then new @ replace old new (drop (length old) (c # cs))
      else c # replace old new cs)"
  by pat_completeness auto
termination
  by (relation "measure (\<lambda>(old, new, s). length s)") auto

text \<open>\<^verbatim>\<open>s.split(sep)\<close> for a one-character separator; the result is never empty.\<close>

fun split :: "char \<Rightarrow> string \<Rightarrow> string list" where
  "split sep [] = [[]]"
| "split sep (c # cs) =
     (if c = sep then [] # split sep cs
      else (case split sep cs of
              [] \<Rightarrow> [[c]]
            | l # ls \<Rightarrow> (c # l) # ls))"

section \<open>The regular expression of the validator\<close>

text \<open>
  The pattern \<^verbatim>\<open>^[a-z_][a-z0-9_-]*[$]?$\<close> is a sequence of anchors and character
  classes, each class taken once, any number of times (\<^verbatim>\<open>*\<close>) or at most once
  (\<^verbatim>\<open>?\<close>).
\<close>

datatype cset = Lit char | Range char char

datatype quant = Once | Star | Opt

datatype item = At_Beginning | At_End | Chars "cset list" quant

text \<open>The code points of a class member, as numbers.\<close>

fun codes :: "cset \<Rightarrow> nat list" where
  "codes (Lit c) = [of_char c]"
| "codes (Range lo hi) = [of_char lo ..< Suc (of_char hi)]"

text \<open>The lower-case mapping on code numbers (\<^term>\<open>lower_char\<close> on numbers).\<close>

definition lower_code :: "nat \<Rightarrow> nat" where
  "lower_code n = (if (65 \<le> n \<and> n \<le> 90) \<or> (192 \<le> n \<and> n \<le> 222 \<and> n \<noteq> 215) then n + 32 else n)"

text \<open>
  Membership in a class. Under \<^verbatim>\<open>re.IGNORECASE\<close> the engine compiles the class to
  the lower-case images of its members and tests the lower-cased subject character
  against them.
\<close>

definition in_class :: "bool \<Rightarrow> cset list \<Rightarrow> char \<Rightarrow> bool" where
  "in_class ignorecase cs c =
     (if ignorecase
      then list_ex (\<lambda>d. lower_code d = lower_code (of_char c)) (concat (map codes cs))
      else list_ex (\<lambda>d. d = of_char c) (concat (map codes cs)))"

text \<open>
  Matching a pattern at the current position: \<^verbatim>\<open>pos\<close> is the number of characters
  consumed so far, the string is what remains. \<^verbatim>\<open>^\<close> holds at position 0 only.
  \<^verbatim>\<open>$\<close> (without \<^verbatim>\<open>re.MULTILINE\<close>) holds at the end of the string and also just
  before a line feed that is the last character of the string.
\<close>

fun matches :: "bool \<Rightarrow> item list \<Rightarrow> nat \<Rightarrow> string \<Rightarrow> bool" where
  "matches ic [] pos s = True"
| "matches ic (At_Beginning # r) pos s = (pos = 0 \<and> matches ic r pos s)"
| "matches ic (At_End # r) pos s = ((s = [] \<or> s = [LF]) \<and> matches ic r pos s)"
| "matches ic (Chars cs Once # r) pos [] = False"
| "matches ic (Chars cs Once # r) pos (c # t) =
     (in_class ic cs c \<and> matches ic r (Suc pos) t)"
| "matches ic (Chars cs Opt # r) pos [] = matches ic r pos []"
| "matches ic (Chars cs Opt # r) pos (c # t) =
     ((in_class ic cs c \<and> matches ic r (Suc pos) t) \<or> matches ic r pos (c # t))"
| "matches ic (Chars cs Star # r) pos [] = matches ic r pos []"
| "matches ic (Chars cs Star # r) pos (c # t) =
     ((in_class ic cs c \<and> matches ic (Chars cs Star # r) (Suc pos) t)
      \<or> matches ic r pos (c # t))"

text \<open>\<^verbatim>\<open>re.match(pattern, s, flags)\<close> as a truth value: is there a match at position 0?\<close>

definition re_match :: "item list \<Rightarrow> string \<Rightarrow> bool \<Rightarrow> bool" where
  "re_match pattern s ignorecase = matches ignorecase pattern 0 s"

text \<open>\<^verbatim>\<open>r'^[a-z_][a-z0-9_-]*[$]?$'\<close>\<close>

definition username_pattern :: "item list" where
  "username_pattern =
     [At_Beginning,
      Chars [Range CHR ''a'' CHR ''z'', Lit CHR ''_''] Once,
      Chars [Range CHR ''a'' CHR ''z'', Range CHR ''0'' CHR ''9'', Lit CHR ''_'', Lit CHR ''-''] Star,
      Chars [Lit CHR ''$''] Opt,
      At_End]"

section \<open>is_valid_username\<close>

text \<open>
  \<^verbatim>\<open>
  def is_valid_username(username):
      if not username:
          return False
      if not re.match(r'^[a-z_][a-z0-9_-]*[$]?$', username, re.IGNORECASE):
          return False
      if len(username) > 32:
          return False
      return True
  \<close>
  The argument is any Python object: a falsy one is rejected by the first test, and
  \<^verbatim>\<open>re.match\<close> raises \<^verbatim>\<open>TypeError\<close> on an object that is not a string.
\<close>

definition is_valid_username :: "pyval \<Rightarrow> exn + bool" where
  "is_valid_username username =
     (if \<not> truthy username then Inr False
      else (case username of
              PyStr s \<Rightarrow>
                if \<not> re_match username_pattern s True then Inr False
                else if length s > 32 then Inr False
                else Inr True
            | _ \<Rightarrow> Inl TypeError))"

section \<open>process_rows\<close>

text \<open>
  A row of the \<^verbatim>\<open>DictReader\<close> is a dict from column names to cells. Iterating the
  reader yields rows and may raise (a malformed line, undecodable bytes): the
  reader is the list of what its iteration does, in order.
\<close>

type_synonym row = "string \<rightharpoonup> pyval"

datatype event = Row row | Raise exn

text \<open>\<^verbatim>\<open>row.get(key, default)\<close>\<close>

definition row_get :: "row \<Rightarrow> string \<Rightarrow> pyval \<Rightarrow> pyval" where
  "row_get r key dflt = (case r key of None \<Rightarrow> dflt | Some v \<Rightarrow> v)"

text \<open>\<^verbatim>\<open>x.strip()\<close> on an object: only a string has the method.\<close>

fun py_strip :: "pyval \<Rightarrow> exn + string" where
  "py_strip (PyStr s) = Inr (strip s)"
| "py_strip PyNone = Inl AttributeError"
| "py_strip (PyList xs) = Inl AttributeError"

text \<open>
  The diagnostics written to standard error. Each constructor stands for one
  \<^verbatim>\<open>print(..., file=sys.stderr)\<close> of the script and carries the values its
  f-string formats:
  \<^item> \<open>Err_columns\<close>: \<^verbatim>\<open>Error: CSV must have 'IP' and 'Results' columns\<close>
  \<^item> \<open>Found_columns fs\<close>: \<^verbatim>\<open>Found columns: {reader.fieldnames}\<close>
  \<^item> \<open>Err_not_found f\<close>: \<^verbatim>\<open>Error: File '{input_file}' not found\<close>
  \<^item> \<open>Err_exception e\<close>: \<^verbatim>\<open>Error: {e}\<close>
  \<^item> \<open>Warn_no_ip n\<close>: \<^verbatim>\<open>Warning: Row {row_count} has no IP address\<close>
  \<^item> \<open>Warn_no_results n ip\<close>: \<^verbatim>\<open>Warning: Row {row_count} ({ip}) has no results\<close>
  \<^item> \<open>Warn_no_users ip\<close>: \<^verbatim>\<open>Warning: No valid usernames found for {ip}\<close>
  \<^item> \<open>Summary n u\<close>: \<^verbatim>\<open>Processed {row_count} IPs, found {user_count} user accounts\<close>
\<close>

datatype msg =
    Err_columns
  | Found_columns "string list"
  | Err_not_found string
  | Err_exception exn
  | Warn_no_ip nat
  | Warn_no_results nat string
  | Warn_no_users string
  | Summary nat nat

text \<open>
  What \<^verbatim>\<open>process_rows\<close> changes: the rows handed to \<^verbatim>\<open>writer.writerow\<close> and the
  lines printed to standard error, both oldest first. Writing a row and printing
  a line are taken to succeed.
\<close>

record sink =
  written :: "string list list"
  errlog :: "msg list"

definition noise_tokens :: "string list" where
  "noise_tokens = [''username'', ''results'', ''user'', ''name'']"

text \<open>
  \<^verbatim>\<open>
  results = results.replace('\\r\\n', '\n').replace('\\n', '\n').replace('\r\n', '\n').replace('\r', '\n')
  lines = results.split('\n')
  \<close>
\<close>

definition normalize :: "string \<Rightarrow> string list" where
  "normalize results =
     split LF
       (replace [CR] [LF]
         (replace [CR, LF] [LF]
           (replace [BSL, CHR ''n''] [LF]
             (replace [BSL, CHR ''r'', BSL, CHR ''n''] [LF] results))))"

text \<open>
  The inner loop \<^verbatim>\<open>for line in lines\<close>. Its state is \<^verbatim>\<open>user_count\<close>,
  \<^verbatim>\<open>found_users\<close> and the rows written so far; an exception leaves the state as
  it was when it was raised.
\<close>

fun process_lines ::
  "string \<Rightarrow> string list \<Rightarrow> nat \<times> nat \<times> string list list
     \<Rightarrow> exn option \<times> nat \<times> nat \<times> string list list" where
  "process_lines ip [] st = (None, st)"
| "process_lines ip (line # lines) (user_count, found_users, out) =
     (let username = strip line
      in if username = [] then process_lines ip lines (user_count, found_users, out)
         else if lower username \<in> set noise_tokens
         then process_lines ip lines (user_count, found_users, out)
         else (case is_valid_username (PyStr username) of
                 Inl e \<Rightarrow> (Some e, user_count, found_users, out)
               | Inr False \<Rightarrow> process_lines ip lines (user_count, found_users, out)
               | Inr True \<Rightarrow>
                   process_lines ip lines
                     (user_count + 1, found_users + 1, out @ [[ip, username]])))"

text \<open>
  The outer loop \<^verbatim>\<open>for row in reader\<close>, with \<^verbatim>\<open>row_count\<close> and \<^verbatim>\<open>user_count\<close>.
  The result is the exception that ended the loop, if any, and the sink.
\<close>

fun rows_loop :: "event list \<Rightarrow> nat \<Rightarrow> nat \<Rightarrow> sink \<Rightarrow> exn option \<times> sink" where
  "rows_loop [] row_count user_count w =
     (None, w\<lparr>errlog := errlog w @ [Summary row_count user_count]\<rparr>)"
| "rows_loop (Raise e # rest) row_count user_count w = (Some e, w)"
| "rows_loop (Row r # rest) row_count user_count w =
     (let row_count = row_count + 1
      in case py_strip (row_get r ''IP'' (PyStr [])) of
           Inl e \<Rightarrow> (Some e, w)
         | Inr ip \<Rightarrow>
             (let results = row_get r ''Results'' (PyStr [])
              in if ip = []
                 then rows_loop rest row_count user_count
                        (w\<lparr>errlog := errlog w @ [Warn_no_ip row_count]\<rparr>)
                 else if \<not> truthy results
                 then rows_loop rest row_count user_count
                        (w\<lparr>errlog := errlog w @ [Warn_no_results row_count ip]\<rparr>)
                 else (case results of
                         PyStr s \<Rightarrow>
                           (case process_lines ip (normalize s) (user_count, 0, written w) of
                              (Some e, user_count', found_users, out) \<Rightarrow>
                                (Some e, w\<lparr>written := out\<rparr>)
                            | (None, user_count', found_users, out) \<Rightarrow>
                                rows_loop rest row_count user_count'
                                  (w\<lparr>written := out,
                                     errlog := errlog w @
                                       (if found_users = 0 then [Warn_no_users ip] else [])\<rparr>))
                       | _ \<Rightarrow> (Some AttributeError, w))))"

definition process_rows :: "event list \<Rightarrow> sink \<Rightarrow> exn option \<times> sink" where
  "process_rows reader w = rows_loop reader 0 0 w"

section \<open>parse_qualys_csv and main\<close>

text \<open>
  The world outside the script: what opening the input file gives (an exception, or
  a \<^verbatim>\<open>DictReader\<close> with its \<^verbatim>\<open>fieldnames\<close>, \<^verbatim>\<open>None\<close> for an empty file, and its
  rows), and whether opening a path for writing raises.
\<close>

record reader =
  fieldnames :: "string list option"
  events :: "event list"

record world =
  open_input :: "string \<Rightarrow> exn + reader"
  open_output :: "string \<Rightarrow> exn option"

text \<open>
  What a run leaves behind: standard output (the usage text or the rows of the
  csv writer), standard error, and the output file if it was opened for writing
  (its path and the rows written to it).
\<close>

datatype stdout_line = Usage_text | Csv "string list"

record effects =
  stdout :: "stdout_line list"
  stderr :: "msg list"
  outfile :: "(string \<times> string list list) option"

definition no_effects :: effects where
  "no_effects = \<lparr>stdout = [], stderr = [], outfile = None\<rparr>"

text \<open>
  The body of the \<^verbatim>\<open>try\<close> block of \<^verbatim>\<open>parse_qualys_csv\<close>: the value returned or
  the exception raised, with the effects up to that point.
\<close>

definition parse_try :: "world \<Rightarrow> string \<Rightarrow> pyval \<Rightarrow> (exn + bool) \<times> effects" where
  "parse_try env input_file output_file =
     (case open_input env input_file of
        Inl e \<Rightarrow> (Inl e, no_effects)
      | Inr rd \<Rightarrow>
          (case fieldnames rd of
             None \<Rightarrow> (Inl TypeError, no_effects)
           | Some fs \<Rightarrow>
               if ''IP'' \<notin> set fs \<or> ''Results'' \<notin> set fs
               then (Inr False, no_effects\<lparr>stderr := [Err_columns, Found_columns fs]\<rparr>)
               else if truthy output_file
               then (case output_file of
                       PyStr path \<Rightarrow>
                         (case open_output env path of
                            Some e \<Rightarrow> (Inl e, no_effects)
                          | None \<Rightarrow>
                              (case process_rows (events rd)
                                      \<lparr>written = [[''IP'', ''Username'']], errlog = []\<rparr> of
                                 (res, w) \<Rightarrow>
                                   ((case res of Some e \<Rightarrow> Inl e | None \<Rightarrow> Inr True),
                                    no_effects\<lparr>stderr := errlog w,
                                               outfile := Some (path, written w)\<rparr>)))
                     | _ \<Rightarrow> (Inl TypeError, no_effects))
               else (case process_rows (events rd)
                             \<lparr>written = [[''IP'', ''Username'']], errlog = []\<rparr> of
                       (res, w) \<Rightarrow>
                         ((case res of Some e \<Rightarrow> Inl e | None \<Rightarrow> Inr True),
                          no_effects\<lparr>stderr := errlog w,
                                     stdout := map Csv (written w)\<rparr>))))"

text \<open>
  \<^verbatim>\<open>parse_qualys_csv\<close>: the \<^verbatim>\<open>try\<close> block with its two handlers,
  \<^verbatim>\<open>except FileNotFoundError\<close> and \<^verbatim>\<open>except Exception\<close>.
\<close>

definition parse_qualys_csv :: "world \<Rightarrow> string \<Rightarrow> pyval \<Rightarrow> bool \<times> effects" where
  "parse_qualys_csv env input_file output_file =
     (case parse_try env input_file output_file of
        (Inr b, eff) \<Rightarrow> (b, eff)
      | (Inl FileNotFoundError, eff) \<Rightarrow>
          (False, eff\<lparr>stderr := stderr eff @ [Err_not_found input_file]\<rparr>)
      | (Inl e, eff) \<Rightarrow>
          (False, eff\<lparr>stderr := stderr eff @ [Err_exception e]\<rparr>))"

text \<open>
  \<^verbatim>\<open>main\<close>: \<^verbatim>\<open>argv\<close> is \<^verbatim>\<open>sys.argv\<close>; the result is the status given to
  \<^verbatim>\<open>sys.exit\<close> and the effects of the run.
\<close>

definition main :: "world \<Rightarrow> string list \<Rightarrow> nat \<times> effects" where
  "main env argv =
     (if length argv < 2 then (1, no_effects\<lparr>stdout := [Usage_text]\<rparr>)
      else (let input_file = argv ! 1;
                output_file = (if length argv > 2 then PyStr (argv ! 2) else PyNone)
            in case parse_qualys_csv env input_file output_file of
                 (success, eff) \<Rightarrow> ((if success then 0 else 1), eff)))"

section \<open>The validator as the specification words it\<close>

text \<open>
  The contract of the username validator, read from the specification: a valid
  username is non-empty; it starts with a letter (of either case) or an
  underscore, goes on with letters, digits, underscores or hyphens, and may end
  with one dollar sign; and it has at most 32 characters.
\<close>

definition is_letter :: "char \<Rightarrow> bool" where
  "is_letter c = (let n = (of_char c :: nat) in (65 \<le> n \<and> n \<le> 90) \<or> (97 \<le> n \<and> n \<le> 122))"

definition is_digit :: "char \<Rightarrow> bool" where
  "is_digit c = (let n = (of_char c :: nat) in 48 \<le> n \<and> n \<le> 57)"

text \<open>The first character, and the characters after it.\<close>

definition first_char :: "char \<Rightarrow> bool" where
  "first_char c = (is_letter c \<or> c = CHR ''_'')"

definition later_char :: "char \<Rightarrow> bool" where
  "later_char c = (is_letter c \<or> is_digit c \<or> c = CHR ''_'' \<or> c = CHR ''-'')"

fun spec_pattern :: "string \<Rightarrow> bool" where
  "spec_pattern [] = False"
| "spec_pattern (c # cs) =
     (first_char c \<and>
      (list_all later_char cs \<or>
       (cs \<noteq> [] \<and> last cs = CHR ''$'' \<and> list_all later_char (butlast cs))))"

definition spec_valid_username :: "string \<Rightarrow> bool" where
  "spec_valid_username s = (s \<noteq> [] \<and> spec_pattern s \<and> length s \<le> 32)"

text \<open>
  What the script's pattern lets follow the name characters: nothing or one dollar
  sign, and after it the end of the string or one final line feed.
\<close>

definition tail_ok :: "string \<Rightarrow> bool" where
  "tail_ok t = (t = [] \<or> t = [LF] \<or> t = ''$'' \<or> t = [CHR ''$'', LF])"

section \<open>The rows of a run as the specification words them\<close>

text \<open>
  The rows among the events of a reader, in order.
\<close>

fun rows_of :: "event list \<Rightarrow> row list" where
  "rows_of [] = []"
| "rows_of (Row r # evs) = r # rows_of evs"
| "rows_of (Raise e # evs) = rows_of evs"

text \<open>
  The host identifier of a row is its stripped \<^verbatim>\<open>IP\<close> cell; a row has a host when
  that is a non-empty string.
\<close>

definition has_host :: "row \<Rightarrow> bool" where
  "has_host r = (case row_get r ''IP'' (PyStr []) of PyStr s \<Rightarrow> strip s \<noteq> [] | _ \<Rightarrow> False)"

definition host :: "row \<Rightarrow> string" where
  "host r = (case row_get r ''IP'' (PyStr []) of PyStr s \<Rightarrow> strip s | _ \<Rightarrow> [])"

text \<open>
  The candidate lines of a row: the lines of its normalized \<^verbatim>\<open>Results\<close> text, each
  stripped. A candidate is accepted when it passes the username validator and is
  not a noise token.
\<close>

definition candidates :: "row \<Rightarrow> string list" where
  "candidates r =
     (case row_get r ''Results'' (PyStr []) of PyStr s \<Rightarrow> map strip (normalize s) | _ \<Rightarrow> [])"

definition accepted :: "string \<Rightarrow> bool" where
  "accepted u = (is_valid_username (PyStr u) = Inr True \<and> lower u \<notin> set noise_tokens)"


definition valid_count :: "row \<Rightarrow> nat" where
  "valid_count r = length (filter (\<lambda>u. is_valid_username (PyStr u) = Inr True) (candidates r))"

text \<open>
  The output records of one row, in the order of its candidate lines, and all the
  (host, candidate) pairs of a row in the order of its results text.
\<close>

definition row_output :: "row \<Rightarrow> string list list" where
  "row_output r =
     (if has_host r then map (\<lambda>u. [host r, u]) (filter accepted (candidates r)) else [])"

definition row_pairs :: "row \<Rightarrow> string list list" where
  "row_pairs r = map (\<lambda>u. [host r, u]) (candidates r)"

text \<open>
  An event that \<^verbatim>\<open>process_rows\<close> passes without an exception: a row whose \<^verbatim>\<open>IP\<close>
  cell is a string and, when that is not blank, whose \<^verbatim>\<open>Results\<close> cell is a string
  or is empty.
\<close>

fun event_ok :: "event \<Rightarrow> bool" where
  "event_ok (Raise e) = False"
| "event_ok (Row r) =
     (case row_get r ''IP'' (PyStr []) of
        PyStr s \<Rightarrow>
          strip s = [] \<or>
          (case row_get r ''Results'' (PyStr []) of PyList xs \<Rightarrow> xs = [] | _ \<Rightarrow> True)
      | _ \<Rightarrow> False)"

text \<open>The rows one call of \<^verbatim>\<open>process_rows\<close> hands to the writer.\<close>

definition emitted :: "event list \<Rightarrow> sink \<Rightarrow> string list list" where
  "emitted evs w = drop (length (written w)) (written (snd (process_rows evs w)))"

text \<open>A string with no whitespace at its start or end.\<close>

definition no_outer_space :: "string \<Rightarrow> bool" where
  "no_outer_space s = (s \<noteq> [] \<and> \<not> is_space (hd s) \<and> \<not> is_space (last s))"


text \<open>
  A run that completes: an input path is given, the input opens, the header has
  both columns, the output path (if one is given and non-empty) opens, and every
  event of the reader passes.
\<close>

definition run_ok :: "world \<Rightarrow> string list \<Rightarrow> bool" where
  "run_ok env argv =
     (2 \<le> length argv \<and>
      (case open_input env (argv ! 1) of
         Inl e \<Rightarrow> False
       | Inr rd \<Rightarrow>
           (case fieldnames rd of
              None \<Rightarrow> False
            | Some fs \<Rightarrow>
                ''IP'' \<in> set fs \<and> ''Results'' \<in> set fs \<and>
                (if 2 < length argv \<and> argv ! 2 \<noteq> [] then open_output env (argv ! 2) = None
                 else True) \<and>
                list_all event_ok (events rd))))"

text \<open>The error messages among the diagnostics (the others are warnings).\<close>

fun is_error :: "msg \<Rightarrow> bool" where
  "is_error Err_columns = True"
| "is_error (Err_not_found f) = True"
| "is_error (Err_exception e) = True"
| "is_error m = False"

text \<open>Sample rows and the empty sink, for the worked examples of the specification.\<close>

definition example_row :: row where
  "example_row = [''IP'' \<mapsto> PyStr ''10.0.0.1'',
                  ''Results'' \<mapsto> PyStr (''root'' @ [LF] @ ''admin'' @ [LF] @ ''Results'' @ [LF])]"


definition blank_host_row :: row where
  "blank_host_row = [''IP'' \<mapsto> PyStr ''  '', ''Results'' \<mapsto> PyStr ''root'']"

definition padded_row :: row where
  "padded_row = [''IP'' \<mapsto> PyStr '' 10.0.0.1 '', ''Results'' \<mapsto> PyStr '' root '']"



definition empty_sink :: sink where
  "empty_sink = \<lparr>written = [], errlog = []\<rparr>"

text \<open>
  Sample worlds: \<^verbatim>\<open>scan.csv\<close> is the only file; its header is complete in the first
  world and lacks the \<^verbatim>\<open>Results\<close> column in the second.
\<close>

definition scan_reader :: reader where
  "scan_reader = \<lparr>fieldnames = Some [''IP'', ''Results''],
                   events = [Row example_row, Row blank_host_row]\<rparr>"

definition scan_world :: world where
  "scan_world =
     \<lparr>open_input = (\<lambda>f. if f = ''scan.csv'' then Inr scan_reader else Inl FileNotFoundError),
      open_output = (\<lambda>f. None)\<rparr>"


section \<open>Line-break encodings\<close>




section \<open>What the regular expression accepts\<close>

lemma char_is: "(c = d) = ((of_char c :: nat) = of_char d)"
  by simp

lemma set_codes: "set (codes (Range lo hi)) = {of_char lo .. of_char hi}" "set (codes (Lit c)) = {of_char c}"
  by (simp_all only: codes.simps set_upt atLeastLessThanSuc_atLeastAtMost list.set)

lemma in_class_ic_iff:
  "in_class True cs c = (\<exists>d \<in> (\<Union>x \<in> set cs. set (codes x)). lower_code d = lower_code (of_char c))"
  by (simp only: in_class_def if_True list_ex_iff set_concat set_map UN_simps image_image Bex_def)

lemma code_a: "(of_char CHR ''a'' :: nat) = 97" "(of_char CHR ''z'' :: nat) = 122"
   "(of_char CHR ''0'' :: nat) = 48" "(of_char CHR ''9'' :: nat) = 57"
   "(of_char CHR ''_'' :: nat) = 95" "(of_char CHR ''-'' :: nat) = 45" "(of_char CHR ''$'' :: nat) = 36"
   "(of_char LF :: nat) = 10"
  by simp_all

lemma lower_code_stable: "n < 65 \<or> (90 < n \<and> n < 192) \<Longrightarrow> lower_code n = n"
  by (auto simp: lower_code_def)

lemma bex_lower_code:
  assumes "\<And>d. d \<in> S \<Longrightarrow> lower_code d = d"
  shows "(\<exists>d \<in> S. lower_code d = lower_code n) = (lower_code n \<in> S)"
proof
  assume "\<exists>d \<in> S. lower_code d = lower_code n"
  then obtain d where "d \<in> S" "lower_code d = lower_code n" by blast
  with assms[of d] show "lower_code n \<in> S" by simp
next
  assume a: "lower_code n \<in> S"
  from assms[OF a] a show "\<exists>d \<in> S. lower_code d = lower_code n" by blast
qed

lemma lower_code_in_letters: "(97 \<le> lower_code n \<and> lower_code n \<le> 122) = ((65 \<le> n \<and> n \<le> 90) \<or> (97 \<le> n \<and> n \<le> 122))"
  by (auto simp: lower_code_def)

lemma lower_code_in_digits: "(48 \<le> lower_code n \<and> lower_code n \<le> 57) = (48 \<le> n \<and> n \<le> 57)"
  by (auto simp: lower_code_def)

lemma lower_code_eq_small: "k < 65 \<Longrightarrow> (lower_code n = k) = (n = k)"
  by (auto simp: lower_code_def)

lemma lower_code_eq_95: "(lower_code n = 95) = (n = 95)"
  by (auto simp: lower_code_def)

lemma in_class_first:
  "in_class True [Range CHR ''a'' CHR ''z'', Lit CHR ''_''] c = first_char c"
proof -
  define n where "n = (of_char c :: nat)"
  have st: "\<And>d. d \<in> {97..122} \<union> {95::nat} \<Longrightarrow> lower_code d = d"
    by (rule lower_code_stable) auto
  have "in_class True [Range CHR ''a'' CHR ''z'', Lit CHR ''_''] c
          = (\<exists>d \<in> {97..122} \<union> {95}. lower_code d = lower_code n)"
    unfolding in_class_ic_iff n_def
    by (simp only: list.set UN_insert UN_empty set_codes code_a Un_empty_right)
  also have "\<dots> = (lower_code n \<in> {97..122} \<union> {95})"
    by (rule bex_lower_code[OF st])
  also have "\<dots> = (((65 \<le> n \<and> n \<le> 90) \<or> (97 \<le> n \<and> n \<le> 122)) \<or> n = 95)"
    by (simp only: Un_iff atLeastAtMost_iff singleton_iff lower_code_in_letters lower_code_eq_95)
  also have "\<dots> = first_char c"
    unfolding first_char_def is_letter_def Let_def char_is[of c "CHR ''_''"] n_def
    by (simp only: code_a)
  finally show ?thesis .
qed

lemma in_class_later:
  "in_class True [Range CHR ''a'' CHR ''z'', Range CHR ''0'' CHR ''9'', Lit CHR ''_'', Lit CHR ''-''] c = later_char c"
proof -
  define n where "n = (of_char c :: nat)"
  let ?S = "{97..122} \<union> ({48..57} \<union> ({95} \<union> {45::nat}))"
  have st: "\<And>d. d \<in> ?S \<Longrightarrow> lower_code d = d"
    by (rule lower_code_stable) auto
  have "in_class True [Range CHR ''a'' CHR ''z'', Range CHR ''0'' CHR ''9'', Lit CHR ''_'', Lit CHR ''-''] c
          = (\<exists>d \<in> ?S. lower_code d = lower_code n)"
    unfolding in_class_ic_iff n_def
    by (simp only: list.set UN_insert UN_empty set_codes code_a Un_empty_right)
  also have "\<dots> = (lower_code n \<in> ?S)"
    by (rule bex_lower_code[OF st])
  also have "\<dots> = (((65 \<le> n \<and> n \<le> 90) \<or> (97 \<le> n \<and> n \<le> 122)) \<or> (48 \<le> n \<and> n \<le> 57) \<or> n = 95 \<or> n = 45)"
    by (simp only: Un_iff atLeastAtMost_iff singleton_iff lower_code_in_letters lower_code_in_digits
          lower_code_eq_95 lower_code_eq_small[of 45 n, simplified])
  also have "\<dots> = later_char c"
    unfolding later_char_def is_letter_def is_digit_def Let_def
      char_is[of c "CHR ''_''"] char_is[of c "CHR ''-''"] n_def
    by (simp only: code_a)
  finally show ?thesis .
qed

lemma in_class_dollar: "in_class True [Lit CHR ''$''] c = (c = CHR ''$'')"
proof -
  have "in_class True [Lit CHR ''$''] c = (\<exists>d \<in> {36}. lower_code d = lower_code (of_char c))"
    unfolding in_class_ic_iff
    by (simp only: list.set UN_insert UN_empty set_codes code_a Un_empty_right)
  also have "\<dots> = (lower_code (of_char c) = 36)"
    by (simp add: lower_code_stable eq_commute)
  also have "\<dots> = ((of_char c :: nat) = 36)"
    by (rule lower_code_eq_small) simp
  also have "\<dots> = (c = CHR ''$'')"
    unfolding char_is[of c "CHR ''$''"] by (simp only: code_a)
  finally show ?thesis .
qed

lemma matches_tail:
  "matches True [Chars [Lit CHR ''$''] Opt, At_End] pos t = tail_ok t"
  by (cases t) (auto simp: in_class_dollar tail_ok_def)

lemma later_char_not_tail: "later_char c \<Longrightarrow> \<not> tail_ok (c # t)"
  by (auto simp: tail_ok_def later_char_def is_letter_def is_digit_def)

lemma matches_star:
  "matches True (Chars [Range CHR ''a'' CHR ''z'', Range CHR ''0'' CHR ''9'', Lit CHR ''_'', Lit CHR ''-''] Star
       # [Chars [Lit CHR ''$''] Opt, At_End]) pos t
   = tail_ok (dropWhile later_char t)"
proof (induction t arbitrary: pos)
  case Nil
  show ?case by (simp add: tail_ok_def)
next
  case (Cons c t)
  show ?case
  proof (cases "later_char c")
    case True
    then show ?thesis
      using Cons.IH[of "Suc pos"] later_char_not_tail[of c t]
      by (simp only: matches.simps(9) in_class_later matches_tail dropWhile.simps if_True simp_thms)
  next
    case False
    then show ?thesis
      by (simp only: matches.simps(9) in_class_later matches_tail dropWhile.simps if_False simp_thms)
  qed
qed

lemma re_match_username:
  "re_match username_pattern s True =
     (case s of [] \<Rightarrow> False | c # t \<Rightarrow> first_char c \<and> tail_ok (dropWhile later_char t))"
proof (cases s)
  case Nil
  then show ?thesis by (simp add: re_match_def username_pattern_def)
next
  case (Cons c t)
  have "matches True username_pattern 0 (c # t) = (first_char c \<and> tail_ok (dropWhile later_char t))"
    unfolding username_pattern_def
    by (simp only: matches.simps(2) matches.simps(5) in_class_first matches_star simp_thms)
  then show ?thesis using Cons by (simp add: re_match_def)
qed

lemma dropWhile_Nil_iff: "(dropWhile P cs = []) = list_all P cs"
  by (induction cs) auto

lemma dropWhile_single:
  "\<not> P x \<Longrightarrow> (dropWhile P cs = [x]) = (cs \<noteq> [] \<and> last cs = x \<and> list_all P (butlast cs))"
  by (induction cs) (auto simp: dropWhile_Nil_iff)

lemma dropWhile_snoc_iff:
  "\<not> P y \<Longrightarrow> (dropWhile P cs = r @ [y]) = (\<exists>b. cs = b @ [y] \<and> dropWhile P b = r)"
proof (induction cs)
  case Nil
  then show ?case by simp
next
  case (Cons c cs)
  show ?case
  proof (cases "P c")
    case True
    have "(\<exists>b. c # cs = b @ [y] \<and> dropWhile P b = r) = (\<exists>b. cs = b @ [y] \<and> dropWhile P b = r)"
    proof
      assume "\<exists>b. c # cs = b @ [y] \<and> dropWhile P b = r"
      then obtain b where b: "c # cs = b @ [y]" "dropWhile P b = r" by blast
      from b(1) True Cons.prems obtain b' where "b = c # b'" by (cases b) auto
      with b True show "\<exists>b. cs = b @ [y] \<and> dropWhile P b = r" by auto
    next
      assume "\<exists>b. cs = b @ [y] \<and> dropWhile P b = r"
      then obtain b where "cs = b @ [y]" "dropWhile P b = r" by blast
      with True have "c # cs = (c # b) @ [y] \<and> dropWhile P (c # b) = r" by simp
      then show "\<exists>b. c # cs = b @ [y] \<and> dropWhile P b = r" by blast
    qed
    with True Cons show ?thesis by simp
  next
    case False
    have "(c # cs = r @ [y]) = (\<exists>b. c # cs = b @ [y] \<and> dropWhile P b = r)"
    proof
      assume a: "c # cs = r @ [y]"
      with False have "dropWhile P r = r" by (cases r) auto
      with a show "\<exists>b. c # cs = b @ [y] \<and> dropWhile P b = r" by blast
    next
      assume "\<exists>b. c # cs = b @ [y] \<and> dropWhile P b = r"
      then obtain b where b: "c # cs = b @ [y]" "dropWhile P b = r" by blast
      from b(2) False b(1) have "dropWhile P b = b" by (cases b) auto
      with b show "c # cs = r @ [y]" by simp
    qed
    with False show ?thesis by simp
  qed
qed

lemma tail_ok_dropWhile:
  "tail_ok (dropWhile later_char cs) =
     ((list_all later_char cs \<or> (cs \<noteq> [] \<and> last cs = CHR ''$'' \<and> list_all later_char (butlast cs)))
      \<or> (\<exists>b. cs = b @ [LF] \<and>
            (list_all later_char b \<or> (b \<noteq> [] \<and> last b = CHR ''$'' \<and> list_all later_char (butlast b)))))"
proof -
  have nd: "\<not> later_char CHR ''$''" and nl: "\<not> later_char LF"
    by (simp_all add: later_char_def is_letter_def is_digit_def)
  have a: "(dropWhile later_char cs = [LF]) = (\<exists>b. cs = b @ [LF] \<and> list_all later_char b)"
    using dropWhile_snoc_iff[where P=later_char and y=LF and cs=cs and r="[]", OF nl] by (simp only: dropWhile_Nil_iff append_Nil)
  have b: "(dropWhile later_char cs = [CHR ''$'', LF])
            = (\<exists>b. cs = b @ [LF] \<and> b \<noteq> [] \<and> last b = CHR ''$'' \<and> list_all later_char (butlast b))"
    using dropWhile_snoc_iff[where P=later_char and y=LF and cs=cs and r="[CHR ''$'']", OF nl] by (simp only: dropWhile_single[where P=later_char, OF nd] append_Cons append_Nil)
  show ?thesis
    unfolding tail_ok_def a b dropWhile_Nil_iff dropWhile_single[where P=later_char, OF nd] by blast
qed

lemma re_match_username_spec:
  "re_match username_pattern s True = (spec_pattern s \<or> (\<exists>b. s = b @ [LF] \<and> spec_pattern b))"
proof (cases s)
  case Nil
  then show ?thesis by (simp add: re_match_username)
next
  case (Cons c cs)
  have "(\<exists>b. c # cs = b @ [LF] \<and> spec_pattern b) =
        (first_char c \<and> (\<exists>b. cs = b @ [LF] \<and>
            (list_all later_char b \<or> (b \<noteq> [] \<and> last b = CHR ''$'' \<and> list_all later_char (butlast b)))))"
  proof
    assume "\<exists>b. c # cs = b @ [LF] \<and> spec_pattern b"
    then obtain b where b: "c # cs = b @ [LF]" "spec_pattern b" by blast
    from b(2) obtain b' where b': "b = c # b'" using b(1) by (cases b) auto
    with b show "first_char c \<and> (\<exists>b. cs = b @ [LF] \<and>
            (list_all later_char b \<or> (b \<noteq> [] \<and> last b = CHR ''$'' \<and> list_all later_char (butlast b))))"
      by auto
  next
    assume "first_char c \<and> (\<exists>b. cs = b @ [LF] \<and>
            (list_all later_char b \<or> (b \<noteq> [] \<and> last b = CHR ''$'' \<and> list_all later_char (butlast b))))"
    then obtain b where "first_char c" "cs = b @ [LF]"
       "list_all later_char b \<or> (b \<noteq> [] \<and> last b = CHR ''$'' \<and> list_all later_char (butlast b))" by blast
    then have "c # cs = (c # b) @ [LF] \<and> spec_pattern (c # b)" by simp
    then show "\<exists>b. c # cs = b @ [LF] \<and> spec_pattern b" by blast
  qed
  then show ?thesis
    unfolding Cons re_match_username by (simp only: list.case tail_ok_dropWhile spec_pattern.simps) blast
qed

lemma is_valid_username_str:
  "is_valid_username (PyStr s) =
     Inr (spec_valid_username s \<or> (\<exists>b. s = b @ [LF] \<and> spec_pattern b \<and> length s \<le> 32))"
proof -
  have "spec_pattern s \<Longrightarrow> s \<noteq> []" by (cases s) auto
  then show ?thesis
    by (auto simp: is_valid_username_def re_match_username_spec spec_valid_username_def)
qed

lemma is_valid_username_no_LF:
  "LF \<notin> set s \<Longrightarrow> is_valid_username (PyStr s) = Inr (spec_valid_username s)"
  unfolding is_valid_username_str by auto

section \<open>The username validator\<close>

text \<open>The examples of the specification, and the length bound.\<close>

lemma is_valid_username_examples:
  "is_valid_username (PyStr ''root'') = Inr True"
  "is_valid_username (PyStr ''_svc'') = Inr True"
  "is_valid_username (PyStr ''user$'') = Inr True"
  "is_valid_username (PyStr ''3root'') = Inr False"
  "is_valid_username (PyStr []) = Inr False"
  "is_valid_username (PyStr ''bad user'') = Inr False"
  by code_simp+

lemma is_valid_username_too_long:
  "length s > 32 \<Longrightarrow> is_valid_username (PyStr s) = Inr False"
  by (simp add: is_valid_username_def)

text \<open>
  C1. The specification says that \<^verbatim>\<open>is_valid_username(s)\<close> is true exactly for the
  non-empty strings of at most 32 characters that match the pattern over the whole
  string. The script tests the pattern with \<^verbatim>\<open>re.match\<close> and a final \<^verbatim>\<open>$\<close>, which
  also matches before a line feed that ends the string: the string \<^verbatim>\<open>root\<close> followed
  by a line feed is accepted, although it is not a username of the contract.
  (Lemma \<open>is_valid_username_str\<close> above gives all strings the script accepts.)
\<close>

theorem is_valid_username_trailing_newline:
  "is_valid_username (PyStr (''root'' @ [LF])) = Inr True
   \<and> spec_valid_username (''root'' @ [LF]) = False"
proof -
  have "is_valid_username (PyStr (''root'' @ [LF])) = Inr True"
    by (simp add: is_valid_username_def re_match_def username_pattern_def in_class_def
          lower_code_def)
  moreover have "spec_valid_username (''root'' @ [LF]) = False"
    by (simp add: spec_valid_username_def later_char_def first_char_def is_letter_def
          is_digit_def)
  ultimately show ?thesis by simp
qed

text \<open>
  C9. On every string the validator returns a boolean: it raises no exception.
  (An object that is not a string, such as a non-empty list, makes \<^verbatim>\<open>re.match\<close>
  raise \<^verbatim>\<open>TypeError\<close>; the claim is about strings.)
\<close>

theorem is_valid_username_total:
  "\<exists>b. is_valid_username (PyStr s) = Inr b"
  by (simp add: is_valid_username_str)

section \<open>What process_rows writes\<close>

text \<open>
  The inner loop never raises; it adds the accepted candidates of the lines, in
  order, and counts them.
\<close>

lemma accepted_nonempty: "accepted u \<Longrightarrow> u \<noteq> []"
  by (auto simp: accepted_def is_valid_username_def)

lemma process_lines_eq:
  "process_lines ip lines (uc, fu, out) =
     (None, uc + length (filter accepted (map strip lines)),
            fu + length (filter accepted (map strip lines)),
            out @ map (\<lambda>u. [ip, u]) (filter accepted (map strip lines)))"
proof (induction lines arbitrary: uc fu out)
  case Nil
  show ?case by simp
next
  case (Cons line lines)
  obtain b where b: "is_valid_username (PyStr (strip line)) = Inr b"
    using is_valid_username_str by blast
  show ?case
  proof (cases "accepted (strip line)")
    case True
    then have "strip line \<noteq> []" "lower (strip line) \<notin> set noise_tokens"
        "is_valid_username (PyStr (strip line)) = Inr True"
      using accepted_nonempty[OF True] by (simp_all add: accepted_def)
    then show ?thesis using True Cons.IH by (simp add: Let_def)
  next
    case False
    show ?thesis
    proof (cases "strip line = [] \<or> lower (strip line) \<in> set noise_tokens")
      case True
      with False Cons.IH show ?thesis by (auto simp: Let_def)
    next
      case F2: False
      with False b have "b = False" by (auto simp: accepted_def)
      with F2 False b Cons.IH show ?thesis by (simp add: Let_def)
    qed
  qed
qed

lemma rows_loop_written:
  "written (snd (rows_loop evs n u w)) =
     written w @ concat (map row_output (rows_of (takeWhile event_ok evs)))"
proof (induction evs arbitrary: n u w)
  case Nil
  show ?case by simp
next
  case (Cons ev evs)
  show ?case
  proof (cases ev)
    case (Raise e)
    then show ?thesis by simp
  next
    case (Row r)
    show ?thesis
    proof (cases "row_get r ''IP'' (PyStr [])")
      case PyNone
      with Row show ?thesis by simp
    next
      case (PyList xs)
      with Row show ?thesis by simp
    next
      case (PyStr s)
      show ?thesis
      proof (cases "strip s = []")
        case True
        with Row PyStr show ?thesis
          by (simp add: Cons.IH row_output_def has_host_def)
      next
        case ne: False
        show ?thesis
        proof (cases "row_get r ''Results'' (PyStr [])")
          case PyNone
          with Row PyStr ne show ?thesis
            by (simp add: Cons.IH row_output_def has_host_def candidates_def)
        next
          case (PyList ys)
          with Row PyStr ne show ?thesis
            by (cases ys) (simp_all add: Cons.IH row_output_def has_host_def candidates_def)
        next
          case R: (PyStr t)
          show ?thesis
          proof (cases "t = []")
            case True
            have "filter accepted (map strip (normalize [])) = []"
              by (auto simp: normalize_def filter_empty_conv strip_def dest: accepted_nonempty)
            with True Row PyStr ne R show ?thesis
              by (simp add: Cons.IH row_output_def has_host_def candidates_def)
          next
            case False
            with Row PyStr ne R show ?thesis
              by (simp add: Cons.IH row_output_def has_host_def host_def candidates_def
                    process_lines_eq)
          qed
        qed
      qed
    qed
  qed
qed

lemma rows_loop_exn:
  "(fst (rows_loop evs n u w) = None) = list_all event_ok evs"
proof (induction evs arbitrary: n u w)
  case Nil
  show ?case by simp
next
  case (Cons ev evs)
  show ?case
  proof (cases ev)
    case (Raise e)
    then show ?thesis by simp
  next
    case (Row r)
    show ?thesis
    proof (cases "row_get r ''IP'' (PyStr [])")
      case PyNone
      with Row show ?thesis by simp
    next
      case (PyList xs)
      with Row show ?thesis by simp
    next
      case (PyStr s)
      show ?thesis
      proof (cases "strip s = []")
        case True
        with Row PyStr show ?thesis by (simp add: Cons.IH)
      next
        case ne: False
        show ?thesis
        proof (cases "row_get r ''Results'' (PyStr [])")
          case PyNone
          with Row PyStr ne show ?thesis by (simp add: Cons.IH)
        next
          case (PyList ys)
          with Row PyStr ne show ?thesis by (cases ys) (simp_all add: Cons.IH)
        next
          case R: (PyStr t)
          with Row PyStr ne show ?thesis
            by (cases "t = []") (simp_all add: Cons.IH process_lines_eq)
        qed
      qed
    qed
  qed
qed

lemma emitted_eq:
  "emitted evs w = concat (map row_output (rows_of (takeWhile event_ok evs)))"
  by (simp add: emitted_def process_rows_def rows_loop_written)

lemma last_dropWhile: "dropWhile P xs \<noteq> [] \<Longrightarrow> last (dropWhile P xs) = last xs"
  by (induction xs) (auto split: if_splits)

lemma strip_outer:
  assumes "strip s \<noteq> []"
  shows "no_outer_space (strip s)"
proof -
  define d where "d = dropWhile is_space s"
  define e where "e = dropWhile is_space (rev d)"
  have s: "strip s = rev e" by (simp add: strip_def d_def e_def)
  with assms have e: "e \<noteq> []" by simp
  then have d: "d \<noteq> []" by (auto simp: e_def)
  have "\<not> is_space (hd e)" using e unfolding e_def by (rule hd_dropWhile)
  then have l: "\<not> is_space (last (rev e))" using e by (simp add: last_rev)
  have "\<not> is_space (hd d)" using d unfolding d_def by (rule hd_dropWhile)
  moreover have "last e = last (rev d)" using e unfolding e_def by (rule last_dropWhile)
  ultimately have "\<not> is_space (hd (rev e))" using e d by (simp add: hd_rev last_rev)
  with l assms show ?thesis unfolding no_outer_space_def s by simp
qed

lemma strip_fixed: "no_outer_space s \<Longrightarrow> strip s = s"
proof -
  assume a: "no_outer_space s"
  then have "dropWhile is_space s = s" by (cases s) (auto simp: no_outer_space_def)
  moreover from a have "dropWhile is_space (rev s) = rev s"
    by (cases "rev s") (auto simp: no_outer_space_def last_rev hd_rev dest: arg_cong[where f=hd])
  ultimately show ?thesis by (simp add: strip_def)
qed

lemma strip_strip: "strip (strip s) = strip s"
proof (cases "strip s = []")
  case True
  show ?thesis unfolding True by (simp add: strip_def)
next
  case False
  then show ?thesis by (rule strip_fixed[OF strip_outer])
qed

lemma strip_all_space: "list_all is_space s \<Longrightarrow> strip s = []"
proof -
  assume "list_all is_space s"
  then have d: "dropWhile is_space s = []" by (induction s) auto
  show ?thesis unfolding strip_def d by simp
qed

text \<open>
  On a stripped string the validator is the validator of the specification: the
  line feed that \<^verbatim>\<open>$\<close> lets through cannot end a stripped string.
\<close>

lemma is_valid_username_stripped:
  "is_valid_username (PyStr (strip l)) = Inr (spec_valid_username (strip l))"
proof (cases "strip l = []")
  case True
  then show ?thesis by (simp add: is_valid_username_str spec_valid_username_def)
next
  case False
  have "is_space LF" by (simp add: is_space_def)
  with strip_outer[OF False] have "strip l \<noteq> b @ [LF]" for b
    by (auto simp: no_outer_space_def)
  then show ?thesis by (simp add: is_valid_username_str)
qed

lemma process_lines_strip:
  "process_lines ip (line # lines) st = process_lines ip (strip line # lines) st"
  by (cases st) (simp add: strip_strip)

lemma row_output_shape:
  "x \<in> set (row_output r) \<Longrightarrow>
     \<exists>ip u. x = [ip, u] \<and> no_outer_space ip \<and> no_outer_space u \<and> accepted u"
proof -
  assume "x \<in> set (row_output r)"
  then obtain u where h: "has_host r" and x: "x = [host r, u]" and u: "u \<in> set (candidates r)"
      and a: "accepted u"
    by (auto simp: row_output_def split: if_splits)
  from h have "no_outer_space (host r)"
    by (auto simp: has_host_def host_def split: pyval.splits intro: strip_outer)
  moreover from u obtain l where "u = strip l"
    by (auto simp: candidates_def split: pyval.splits)
  with a have "no_outer_space u" using accepted_nonempty strip_outer by blast
  ultimately show ?thesis using x a by blast
qed

lemma emitted_shape:
  "x \<in> set (emitted evs w) \<Longrightarrow>
     \<exists>ip u. x = [ip, u] \<and> no_outer_space ip \<and> no_outer_space u \<and> accepted u"
  unfolding emitted_eq by (auto dest: row_output_shape)

lemma rows_of_append: "rows_of (xs @ ys) = rows_of xs @ rows_of ys"
  by (induction xs rule: rows_of.induct) auto

lemma length_concat_le:
  "(\<And>x. length (f x) \<le> g x) \<Longrightarrow> length (concat (map f xs)) \<le> sum_list (map g xs)"
  by (induction xs) (auto simp: add_mono)

lemma subseq_concat_map:
  "(\<And>x. subseq (f x) (g x)) \<Longrightarrow> subseq (concat (map f xs)) (concat (map g xs))"
  by (induction xs) (auto intro: list_emb_append_mono)

lemma row_output_le: "length (row_output r) \<le> valid_count r"
proof -
  have "length (filter accepted xs) \<le> length (filter (\<lambda>u. is_valid_username (PyStr u) = Inr True) xs)"
    for xs
    by (induction xs) (auto simp: accepted_def le_SucI)
  then show ?thesis by (simp add: row_output_def valid_count_def)
qed

lemma row_output_subseq: "subseq (row_output r) (row_pairs r)"
  by (simp add: row_output_def row_pairs_def subseq_map)

lemma takeWhile_rows_le:
  "sum_list (map g (rows_of (takeWhile P evs))) \<le> sum_list (map (g :: row \<Rightarrow> nat) (rows_of evs))"
proof -
  have "rows_of evs = rows_of (takeWhile P evs) @ rows_of (dropWhile P evs)"
    by (simp add: rows_of_append[symmetric])
  then show ?thesis by simp
qed

lemma takeWhile_rows_subseq:
  "subseq (concat (map f (rows_of (takeWhile P evs)))) (concat (map f (rows_of evs)))"
proof -
  have "rows_of evs = rows_of (takeWhile P evs) @ rows_of (dropWhile P evs)"
    by (simp add: rows_of_append[symmetric])
  then have "concat (map f (rows_of evs))
     = concat (map f (rows_of (takeWhile P evs))) @ concat (map f (rows_of (dropWhile P evs)))"
    by simp
  moreover have "subseq (concat (map f (rows_of (takeWhile P evs))) @ [])
     (concat (map f (rows_of (takeWhile P evs))) @ concat (map f (rows_of (dropWhile P evs))))"
    by (rule list_emb_append_mono) simp_all
  ultimately show ?thesis by simp
qed



section \<open>Claims about the emitted rows\<close>

text \<open>
  C5. For every input, the number of output rows is at most the number of
  candidate lines that pass validation, summed over the input rows; the output
  rows appear in input-row order and, within a row, in the order of its candidate
  lines: the output is a subsequence of all (host, candidate) pairs in input
  order, and it is exactly the concatenation, row after row, of each row's accepted
  candidates (up to the first event that raises).
\<close>

theorem output_bound_and_order:
  "length (emitted evs w) \<le> sum_list (map valid_count (rows_of evs))
   \<and> subseq (emitted evs w) (concat (map row_pairs (rows_of evs)))
   \<and> emitted evs w = concat (map row_output (rows_of (takeWhile event_ok evs)))"
proof -
  have "length (emitted evs w) \<le> sum_list (map valid_count (rows_of (takeWhile event_ok evs)))"
    unfolding emitted_eq by (rule length_concat_le) (rule row_output_le)
  then have 1: "length (emitted evs w) \<le> sum_list (map valid_count (rows_of evs))"
    using takeWhile_rows_le[of valid_count event_ok evs] by linarith
  have "subseq (emitted evs w) (concat (map row_pairs (rows_of (takeWhile event_ok evs))))"
    unfolding emitted_eq by (rule subseq_concat_map) (rule row_output_subseq)
  then have 2: "subseq (emitted evs w) (concat (map row_pairs (rows_of evs)))"
    using takeWhile_rows_subseq[of row_pairs event_ok evs] subseq_order.order_trans by blast
  from 1 2 emitted_eq show ?thesis by blast
qed






text \<open>
  C10. The host identifier and every candidate line are stripped before any check:
  a row whose IP cell holds only whitespace is skipped with the no-IP warning; a
  line is handled exactly as its stripped form is (so the noise and validity tests
  see the stripped candidate); the row with IP " 10.0.0.1 " and results " root "
  yields (10.0.0.1, root); and no emitted IP or username starts or ends with
  whitespace.
\<close>

theorem strip_before_checks:
  "(row_get r ''IP'' (PyStr []) = PyStr s \<and> list_all is_space s \<longrightarrow>
      rows_loop (Row r # rest) n u w
        = rows_loop rest (n + 1) u (w\<lparr>errlog := errlog w @ [Warn_no_ip (n + 1)]\<rparr>))
   \<and> process_lines ip (line # lines) st = process_lines ip (strip line # lines) st
   \<and> process_rows [Row padded_row] empty_sink
       = (None, \<lparr>written = [[''10.0.0.1'', ''root'']], errlog = [Summary 1 1]\<rparr>)
   \<and> (\<forall>x \<in> set (emitted evs w'). \<exists>ip u. x = [ip, u] \<and> no_outer_space ip \<and> no_outer_space u)"
proof -
  have 1: "row_get r ''IP'' (PyStr []) = PyStr s \<and> list_all is_space s \<longrightarrow>
      rows_loop (Row r # rest) n u w
        = rows_loop rest (n + 1) u (w\<lparr>errlog := errlog w @ [Warn_no_ip (n + 1)]\<rparr>)"
    by (auto simp: strip_all_space)
  have 3: "process_rows [Row padded_row] empty_sink
       = (None, \<lparr>written = [[''10.0.0.1'', ''root'']], errlog = [Summary 1 1]\<rparr>)"
    by code_simp
  have 4: "\<forall>x \<in> set (emitted evs w'). \<exists>ip u. x = [ip, u] \<and> no_outer_space ip \<and> no_outer_space u"
    using emitted_shape[of _ evs w'] by blast
  from 1 process_lines_strip[of ip line lines st] 3 4 show ?thesis by blast
qed

theorem strip_before_checks_witness:
  "row_get blank_host_row ''IP'' (PyStr []) = PyStr ''  '' \<and> list_all is_space ''  ''
   \<and> rows_loop [Row blank_host_row] 0 0 empty_sink
       = (None, \<lparr>written = [], errlog = [Warn_no_ip 1, Summary 1 0]\<rparr>)
   \<and> [''10.0.0.1'', ''root''] \<in> set (emitted [Row padded_row] empty_sink)
   \<and> (\<exists>ip u. [''10.0.0.1'', ''root''] = [ip, u] \<and> no_outer_space ip \<and> no_outer_space u)"
proof -
  have h: "row_get blank_host_row ''IP'' (PyStr []) = PyStr ''  '' \<and> list_all is_space ''  ''"
    by code_simp
  have m: "[''10.0.0.1'', ''root''] \<in> set (emitted [Row padded_row] empty_sink)" by code_simp
  have e: "rows_loop [] (0 + 1) 0 (empty_sink\<lparr>errlog := errlog empty_sink @ [Warn_no_ip (0 + 1)]\<rparr>)
       = (None, \<lparr>written = [], errlog = [Warn_no_ip 1, Summary 1 0]\<rparr>)"
    by (simp add: empty_sink_def)
  note T = strip_before_checks[where r = blank_host_row and s = "''  ''" and rest = "[]"
        and n = 0 and u = 0 and w = empty_sink and evs = "[Row padded_row]" and w' = empty_sink]
  from T[THEN conjunct1] h have "rows_loop [Row blank_host_row] 0 0 empty_sink
       = rows_loop [] (0 + 1) 0 (empty_sink\<lparr>errlog := errlog empty_sink @ [Warn_no_ip (0 + 1)]\<rparr>)"
    by (rule mp)
  with e have r: "rows_loop [Row blank_host_row] 0 0 empty_sink
       = (None, \<lparr>written = [], errlog = [Warn_no_ip 1, Summary 1 0]\<rparr>)"
    by simp
  from T[THEN conjunct2, THEN conjunct2, THEN conjunct2] m
  have x: "\<exists>ip u. [''10.0.0.1'', ''root''] = [ip, u] \<and> no_outer_space ip \<and> no_outer_space u"
    by (rule bspec)
  from h r m x show ?thesis by (intro conjI) simp_all
qed

section \<open>The exit status\<close>

lemma process_rows_exn: "(fst (process_rows evs w) = None) = list_all event_ok evs"
  by (simp add: process_rows_def rows_loop_exn)

lemma parse_try_ok:
  "(fst (parse_try env f out) = Inr True) =
     (case open_input env f of
        Inl e \<Rightarrow> False
      | Inr rd \<Rightarrow>
          (case fieldnames rd of
             None \<Rightarrow> False
           | Some fs \<Rightarrow>
               ''IP'' \<in> set fs \<and> ''Results'' \<in> set fs \<and>
               (if truthy out then (case out of PyStr p \<Rightarrow> open_output env p = None | _ \<Rightarrow> False)
                else True) \<and>
               list_all event_ok (events rd)))"
proof (cases "open_input env f")
  case (Inl e)
  then show ?thesis by (simp add: parse_try_def)
next
  case (Inr rd)
  show ?thesis
  proof (cases "fieldnames rd")
    case None
    with Inr show ?thesis by (simp add: parse_try_def)
  next
    case (Some fs)
    show ?thesis
    proof (cases "''IP'' \<notin> set fs \<or> ''Results'' \<notin> set fs")
      case True
      with Inr Some show ?thesis by (auto simp: parse_try_def)
    next
      case False
      obtain res w where pr: "process_rows (events rd) \<lparr>written = [[''IP'', ''Username'']], errlog = []\<rparr> = (res, w)"
        by (cases "process_rows (events rd) \<lparr>written = [[''IP'', ''Username'']], errlog = []\<rparr>")
      have ex: "(res = None) = list_all event_ok (events rd)"
        using process_rows_exn[of "events rd" "\<lparr>written = [[''IP'', ''Username'']], errlog = []\<rparr>"] pr
        by simp
      show ?thesis
      proof (cases out)
        case PyNone
        with Inr Some False pr ex show ?thesis
          by (cases res) (simp_all add: parse_try_def)
      next
        case (PyList xs)
        with Inr Some False pr ex show ?thesis
          by (cases res; cases "xs = []") (simp_all add: parse_try_def)
      next
        case (PyStr p)
        show ?thesis
        proof (cases "p = []")
          case True
          with PyStr Inr Some False pr ex show ?thesis
            by (cases res) (simp_all add: parse_try_def)
        next
          case ne: False
          show ?thesis
          proof (cases "open_output env p")
            case None
            with ne PyStr Inr Some False pr ex show ?thesis
              by (cases res) (simp_all add: parse_try_def)
          next
            case (Some e)
            with ne PyStr Inr \<open>fieldnames rd = Some fs\<close> False show ?thesis
              by (simp add: parse_try_def)
          qed
        qed
      qed
    qed
  qed
qed

lemma parse_qualys_csv_success:
  "fst (parse_qualys_csv env f out) = (fst (parse_try env f out) = Inr True)"
  unfolding parse_qualys_csv_def
  by (cases "parse_try env f out") (auto split: sum.splits exn.splits)

lemma main_exit:
  "fst (main env argv) = (if run_ok env argv then 0 else 1)"
proof (cases "length argv < 2")
  case True
  then show ?thesis by (simp add: main_def run_ok_def)
next
  case False
  let ?out = "if length argv > 2 then PyStr (argv ! 2) else PyNone"
  have "fst (main env argv) = (if fst (parse_qualys_csv env (argv ! 1) ?out) then 0 else 1)"
    using False by (simp add: main_def Let_def split: prod.splits)
  moreover have "fst (parse_qualys_csv env (argv ! 1) ?out) = run_ok env argv"
    using False unfolding parse_qualys_csv_success parse_try_ok run_ok_def
    by (auto split: sum.splits option.splits)
  ultimately show ?thesis by simp
qed


lemma rows_loop_errlog:
  "m \<in> set (errlog (snd (rows_loop evs n u w))) \<Longrightarrow> is_error m \<Longrightarrow> m \<in> set (errlog w)"
proof (induction evs arbitrary: n u w)
  case Nil
  then show ?case by auto
next
  case (Cons ev evs)
  show ?case
  proof (cases ev)
    case (Raise e)
    with Cons.prems show ?thesis by simp
  next
    case (Row r)
    show ?thesis
    proof (cases "row_get r ''IP'' (PyStr [])")
      case PyNone
      with Row Cons.prems show ?thesis by simp
    next
      case (PyList xs)
      with Row Cons.prems show ?thesis by simp
    next
      case (PyStr s)
      show ?thesis
      proof (cases "strip s = []")
        case True
        with Row PyStr Cons.prems have
          "m \<in> set (errlog (snd (rows_loop evs (n + 1) u (w\<lparr>errlog := errlog w @ [Warn_no_ip (n + 1)]\<rparr>))))"
          by simp
        from Cons.IH[OF this Cons.prems(2)] Cons.prems(2) show ?thesis by auto
      next
        case ne: False
        show ?thesis
        proof (cases "row_get r ''Results'' (PyStr [])")
          case PyNone
          with Row PyStr ne Cons.prems have
            "m \<in> set (errlog (snd (rows_loop evs (n + 1) u
                  (w\<lparr>errlog := errlog w @ [Warn_no_results (n + 1) (strip s)]\<rparr>))))"
            by simp
          from Cons.IH[OF this Cons.prems(2)] Cons.prems(2) show ?thesis by auto
        next
          case (PyList ys)
          show ?thesis
          proof (cases "ys = []")
            case True
            with PyList Row PyStr ne Cons.prems have
              "m \<in> set (errlog (snd (rows_loop evs (n + 1) u
                    (w\<lparr>errlog := errlog w @ [Warn_no_results (n + 1) (strip s)]\<rparr>))))"
              by simp
            from Cons.IH[OF this Cons.prems(2)] Cons.prems(2) show ?thesis by auto
          next
            case False
            with PyList Row PyStr ne Cons.prems show ?thesis by simp
          qed
        next
          case R: (PyStr t)
          show ?thesis
          proof (cases "t = []")
            case True
            with R Row PyStr ne Cons.prems have
              "m \<in> set (errlog (snd (rows_loop evs (n + 1) u
                    (w\<lparr>errlog := errlog w @ [Warn_no_results (n + 1) (strip s)]\<rparr>))))"
              by simp
            from Cons.IH[OF this Cons.prems(2)] Cons.prems(2) show ?thesis by auto
          next
            case False
            let ?k = "length (filter accepted (map strip (normalize t)))"
            let ?w = "w\<lparr>written := written w @ map (\<lambda>u. [strip s, u]) (filter accepted (map strip (normalize t))),
                        errlog := errlog w @ (if ?k = 0 then [Warn_no_users (strip s)] else [])\<rparr>"
            from False R Row PyStr ne Cons.prems have
              "m \<in> set (errlog (snd (rows_loop evs (n + 1) (u + ?k) ?w)))"
              by (simp add: process_lines_eq)
            from Cons.IH[OF this Cons.prems(2)] Cons.prems(2) show ?thesis
              by (auto split: if_splits)
          qed
        qed
      qed
    qed
  qed
qed

lemma process_rows_errlog:
  "m \<in> set (errlog (snd (process_rows evs \<lparr>written = ws, errlog = []\<rparr>))) \<Longrightarrow> \<not> is_error m"
  using rows_loop_errlog[of m evs 0 0 "\<lparr>written = ws, errlog = []\<rparr>"]
  by (auto simp: process_rows_def)

lemma parse_try_stderr:
  assumes "fst (parse_try env f out) = Inr b"
  shows "if b then (\<forall>m \<in> set (stderr (snd (parse_try env f out))). \<not> is_error m)
         else Err_columns \<in> set (stderr (snd (parse_try env f out)))"
proof (cases "open_input env f")
  case (Inl e)
  with assms show ?thesis by (simp add: parse_try_def)
next
  case (Inr rd)
  show ?thesis
  proof (cases "fieldnames rd")
    case None
    with Inr assms show ?thesis by (simp add: parse_try_def)
  next
    case (Some fs)
    show ?thesis
    proof (cases "''IP'' \<notin> set fs \<or> ''Results'' \<notin> set fs")
      case True
      with Inr Some assms show ?thesis by (auto simp: parse_try_def no_effects_def)
    next
      case False
      let ?w0 = "\<lparr>written = [[''IP'', ''Username'']], errlog = []\<rparr>"
      obtain res w where pr: "process_rows (events rd) ?w0 = (res, w)"
        by (cases "process_rows (events rd) ?w0")
      have ne: "\<forall>m \<in> set (errlog w). \<not> is_error m"
        using process_rows_errlog[of _ "events rd" "[[''IP'', ''Username'']]"] pr by simp
      show ?thesis
      proof (cases out)
        case PyNone
        with Inr Some False pr ne assms show ?thesis
          by (cases res) (simp_all add: parse_try_def no_effects_def)
      next
        case (PyList xs)
        with Inr Some False pr ne assms show ?thesis
          by (cases res; cases "xs = []") (simp_all add: parse_try_def no_effects_def)
      next
        case (PyStr p)
        show ?thesis
        proof (cases "p = []")
          case True
          with PyStr Inr Some False pr ne assms show ?thesis
            by (cases res) (simp_all add: parse_try_def no_effects_def)
        next
          case nemp: False
          show ?thesis
          proof (cases "open_output env p")
            case None
            with nemp PyStr Inr Some False pr ne assms show ?thesis
              by (cases res) (simp_all add: parse_try_def no_effects_def)
          next
            case (Some e)
            with nemp PyStr Inr \<open>fieldnames rd = Some fs\<close> False assms show ?thesis
              by (simp add: parse_try_def)
          qed
        qed
      qed
    qed
  qed
qed

lemma parse_try_False:
  "fst (parse_try env f out) = Inr False \<Longrightarrow>
     Err_columns \<in> set (stderr (snd (parse_try env f out)))"
  using parse_try_stderr[of env f out False] by simp

lemma parse_try_True:
  assumes "fst (parse_try env f out) = Inr True"
    and "m \<in> set (stderr (snd (parse_try env f out)))"
  shows "\<not> is_error m"
  using parse_try_stderr[of env f out True] assms by simp

lemma parse_qualys_csv_False:
  assumes "\<not> fst (parse_qualys_csv env f out)"
  shows "\<exists>m \<in> set (stderr (snd (parse_qualys_csv env f out))). is_error m"
proof (cases "parse_try env f out")
  case (Pair res eff)
  show ?thesis
  proof (cases res)
    case (Inl e)
    with Pair show ?thesis
      by (cases e) (auto simp: parse_qualys_csv_def)
  next
    case (Inr b)
    with Pair assms have "b = False" by (simp add: parse_qualys_csv_def)
    with Inr Pair parse_try_False[of env f out] have "Err_columns \<in> set (stderr eff)" by simp
    then have "\<exists>m \<in> set (stderr eff). is_error m"
      by (intro bexI[of _ Err_columns]) simp_all
    with Inr Pair \<open>b = False\<close> show ?thesis by (simp add: parse_qualys_csv_def)
  qed
qed

lemma parse_qualys_csv_True:
  assumes "fst (parse_qualys_csv env f out)"
    and "m \<in> set (stderr (snd (parse_qualys_csv env f out)))"
  shows "\<not> is_error m"
proof (cases "parse_try env f out")
  case (Pair res eff)
  from assms(1) have t: "fst (parse_try env f out) = Inr True"
    by (simp add: parse_qualys_csv_success)
  with Pair have "res = Inr True" by simp
  with Pair assms(2) have "m \<in> set (stderr (snd (parse_try env f out)))"
    by (simp add: parse_qualys_csv_def)
  with t show ?thesis by (rule parse_try_True)
qed



section \<open>The line normalizer\<close>
























section \<open>Claims about the run\<close>



text \<open>
  C8. The exit status is 0 exactly when the run completes (whatever the number of
  usernames found) and 1 otherwise: when no input path is given, when the input
  cannot be opened (a file that is not found gives the not-found message), when
  the column check fails, and when any exception is raised while the rows are
  processed. Every run ends with a status; a run that exits with 1 has printed the
  usage text or an error message, and a run that exits with 0 has printed no error
  message.
\<close>

theorem exit_status:
  "fst (main env argv) = (if run_ok env argv then 0 else 1)
   \<and> (2 \<le> length argv \<and> open_input env (argv ! 1) = Inl FileNotFoundError \<longrightarrow>
        main env argv
          = (1, \<lparr>stdout = [], stderr = [Err_not_found (argv ! 1)], outfile = None\<rparr>))
   \<and> (fst (main env argv) = 1 \<longrightarrow>
        stdout (snd (main env argv)) = [Usage_text]
        \<or> (\<exists>m \<in> set (stderr (snd (main env argv))). is_error m))
   \<and> (fst (main env argv) = 0 \<longrightarrow>
        (\<forall>m \<in> set (stderr (snd (main env argv))). \<not> is_error m))"
proof -
  let ?out = "if length argv > 2 then PyStr (argv ! 2) else PyNone"
  have 2: "2 \<le> length argv \<and> open_input env (argv ! 1) = Inl FileNotFoundError \<longrightarrow>
        main env argv
          = (1, \<lparr>stdout = [], stderr = [Err_not_found (argv ! 1)], outfile = None\<rparr>)"
    by (auto simp: main_def parse_qualys_csv_def parse_try_def no_effects_def Let_def)
  have mf: "\<not> length argv < 2 \<Longrightarrow>
      fst (main env argv) = (if fst (parse_qualys_csv env (argv ! 1) ?out) then 0 else 1)"
    by (simp add: main_def Let_def split: prod.splits)
  have ms: "\<not> length argv < 2 \<Longrightarrow>
      snd (main env argv) = snd (parse_qualys_csv env (argv ! 1) ?out)"
    by (simp add: main_def Let_def split: prod.splits)
  have 3: "fst (main env argv) = 1 \<longrightarrow>
        stdout (snd (main env argv)) = [Usage_text]
        \<or> (\<exists>m \<in> set (stderr (snd (main env argv))). is_error m)"
  proof (cases "length argv < 2")
    case True
    then show ?thesis by (simp add: main_def no_effects_def)
  next
    case False
    show ?thesis
    proof
      assume "fst (main env argv) = 1"
      then have "\<not> fst (parse_qualys_csv env (argv ! 1) ?out)"
        unfolding mf[OF False] by (cases "fst (parse_qualys_csv env (argv ! 1) ?out)") simp_all
      from parse_qualys_csv_False[OF this]
      show "stdout (snd (main env argv)) = [Usage_text]
        \<or> (\<exists>m \<in> set (stderr (snd (main env argv))). is_error m)"
        unfolding ms[OF False] by (rule disjI2)
    qed
  qed
  have 4: "fst (main env argv) = 0 \<longrightarrow>
        (\<forall>m \<in> set (stderr (snd (main env argv))). \<not> is_error m)"
  proof (cases "length argv < 2")
    case True
    then show ?thesis by (simp add: main_def no_effects_def)
  next
    case False
    show ?thesis
    proof
      assume "fst (main env argv) = 0"
      then have "fst (parse_qualys_csv env (argv ! 1) ?out)"
        unfolding mf[OF False] by (cases "fst (parse_qualys_csv env (argv ! 1) ?out)") simp_all
      from parse_qualys_csv_True[OF this]
      show "\<forall>m \<in> set (stderr (snd (main env argv))). \<not> is_error m"
        unfolding ms[OF False] by blast
    qed
  qed
  from main_exit[of env argv] 2 3 4 show ?thesis by blast
qed

theorem exit_status_witness:
  "run_ok scan_world [''qualys_parser.py'', ''scan.csv'']
   \<and> fst (main scan_world [''qualys_parser.py'', ''scan.csv'']) = 0
   \<and> 2 \<le> length [''qualys_parser.py'', ''missing.csv'']
   \<and> open_input scan_world ([''qualys_parser.py'', ''missing.csv''] ! 1) = Inl FileNotFoundError
   \<and> main scan_world [''qualys_parser.py'', ''missing.csv'']
       = (1, \<lparr>stdout = [], stderr = [Err_not_found ''missing.csv''], outfile = None\<rparr>)
   \<and> fst (main scan_world [''qualys_parser.py'']) = 1
   \<and> stdout (snd (main scan_world [''qualys_parser.py''])) = [Usage_text]"
proof -
  have ok: "run_ok scan_world [''qualys_parser.py'', ''scan.csv'']" by code_simp
  have nf: "2 \<le> length [''qualys_parser.py'', ''missing.csv'']
      \<and> open_input scan_world ([''qualys_parser.py'', ''missing.csv''] ! 1) = Inl FileNotFoundError"
    by (simp add: scan_world_def)
  have nu: "\<not> run_ok scan_world [''qualys_parser.py'']" by (simp add: run_ok_def)
  have us: "stdout (snd (main scan_world [''qualys_parser.py''])) = [Usage_text]"
    by (simp add: main_def no_effects_def)
  from exit_status[of scan_world "[''qualys_parser.py'', ''scan.csv'']"] ok
  have 1: "fst (main scan_world [''qualys_parser.py'', ''scan.csv'']) = 0" by simp
  from exit_status[of scan_world "[''qualys_parser.py'', ''missing.csv'']"] nf
  have 2: "main scan_world [''qualys_parser.py'', ''missing.csv'']
       = (1, \<lparr>stdout = [], stderr = [Err_not_found ''missing.csv''], outfile = None\<rparr>)"
    by simp
  from exit_status[of scan_world "[''qualys_parser.py'']"] nu
  have 3: "fst (main scan_world [''qualys_parser.py'']) = 1" by simp
  from ok 1 nf 2 3 us show ?thesis by blast
qed



end
